theory Spec2Isabelle
  imports Complex_Main "HOL-Library.AList" "HOL-Library.Sublist" "HOL-Library.Product_Lexorder"
begin

section \<open>JavaScript values\<close>

text \<open>
  A JavaScript \<^verbatim>\<open>number\<close>. The store only compares numbers and takes their minimum and
  maximum, so a finite number is kept as the rational it denotes (positive and negative
  zero are the same value \<open>Num 0\<close>), next to the three special values.
\<close>

datatype jsnumber = NaN | NegInf | Num rat | PosInf

text \<open>\<^verbatim>\<open>a < b\<close> on numbers: false as soon as one side is \<open>NaN\<close>.\<close>

fun js_lt :: "jsnumber \<Rightarrow> jsnumber \<Rightarrow> bool" where
  "js_lt (Num a) (Num b) = (a < b)"
| "js_lt NegInf (Num b) = True"
| "js_lt NegInf PosInf = True"
| "js_lt (Num a) PosInf = True"
| "js_lt _ _ = False"

text \<open>\<^verbatim>\<open>a > b\<close> and \<^verbatim>\<open>a >= b\<close>.\<close>

definition js_gt :: "jsnumber \<Rightarrow> jsnumber \<Rightarrow> bool" where
  "js_gt a b = js_lt b a"

definition js_ge :: "jsnumber \<Rightarrow> jsnumber \<Rightarrow> bool" where
  "js_ge a b = (a \<noteq> NaN \<and> b \<noteq> NaN \<and> \<not> js_lt a b)"

text \<open>\<^verbatim>\<open>n || 0\<close> on a number: \<open>NaN\<close> and zero are the falsy numbers.\<close>

definition or_zero :: "jsnumber \<Rightarrow> jsnumber" where
  "or_zero n = (if n = NaN \<or> n = Num 0 then Num 0 else n)"

text \<open>\<^verbatim>\<open>Math.min\<close>, \<^verbatim>\<open>Math.max\<close> and \<^verbatim>\<open>Number.isFinite\<close> on numbers.\<close>

definition Math_min :: "jsnumber \<Rightarrow> jsnumber \<Rightarrow> jsnumber" where
  "Math_min a b = (if a = NaN \<or> b = NaN then NaN else if js_lt b a then b else a)"

definition Math_max :: "jsnumber \<Rightarrow> jsnumber \<Rightarrow> jsnumber" where
  "Math_max a b = (if a = NaN \<or> b = NaN then NaN else if js_lt a b then b else a)"

fun Number_isFinite :: "jsnumber \<Rightarrow> bool" where
  "Number_isFinite (Num r) = True"
| "Number_isFinite _ = False"

text \<open>
  A value whose type the code tests at run time. \<open>JObject\<close> stands for any object or
  array; a property read on it that the store makes gives \<^verbatim>\<open>undefined\<close>.
\<close>

datatype jsvalue = JUndefined | JNull | JBool bool | JNumber jsnumber | JString string | JObject

fun truthy :: "jsvalue \<Rightarrow> bool" where
  "truthy JUndefined = False"
| "truthy JNull = False"
| "truthy (JBool b) = b"
| "truthy (JNumber n) = (n \<noteq> NaN \<and> n \<noteq> Num 0)"
| "truthy (JString s) = (s \<noteq> [])"
| "truthy JObject = True"

section \<open>The data model of the account store\<close>

datatype CooldownReason = AuthFailure | NetworkError

datatype SwitchReason = RateLimit | Initial | Rotation

text \<open>
  \<^verbatim>\<open>AccountMetadataV1\<close>. The type parameter is the type of \<open>refreshToken\<close>: a string
  in a record of the declared interface, any value in an object read from disk, where
  \<open>loadAccounts\<close> tests it. The fields the code never tests are taken at their declared
  types; an optional field is an \<open>option\<close>.
\<close>

record 'r metadata =
  accountId :: "string option"
  refreshToken :: 'r
  addedAt :: jsnumber
  lastUsed :: jsnumber
  lastSwitchReason :: "SwitchReason option"
  rateLimitResetTime :: "jsnumber option"
  coolingDownUntil :: "jsnumber option"
  cooldownReason :: "CooldownReason option"

type_synonym AccountMetadataV1 = "string metadata"

text \<open>\<^verbatim>\<open>AccountStorageV1\<close>; its \<open>version\<close> has the literal type \<^verbatim>\<open>1\<close>.\<close>

datatype version_literal = V1

record AccountStorageV1 =
  version :: version_literal
  accounts :: "AccountMetadataV1 list"
  activeIndex :: jsnumber

section \<open>Deduplication\<close>

definition selectNewestAccount ::
  "AccountMetadataV1 option \<Rightarrow> AccountMetadataV1 \<Rightarrow> AccountMetadataV1" where
  "selectNewestAccount current candidate =
     (case current of
        None \<Rightarrow> candidate
      | Some cur \<Rightarrow>
          (let currentLastUsed = or_zero (lastUsed cur);
               candidateLastUsed = or_zero (lastUsed candidate)
           in if js_gt candidateLastUsed currentLastUsed then candidate
              else if js_lt candidateLastUsed currentLastUsed then cur
              else (let currentAddedAt = or_zero (addedAt cur);
                        candidateAddedAt = or_zero (addedAt candidate)
                    in if js_ge candidateAddedAt currentAddedAt then candidate else cur)))"

text \<open>
  \<^verbatim>\<open>account.accountId || account.refreshToken\<close>: the account id unless it is absent or
  the empty string.
\<close>

definition identity_key :: "AccountMetadataV1 \<Rightarrow> string" where
  "identity_key account =
     (case accountId account of
        None \<Rightarrow> refreshToken account
      | Some aid \<Rightarrow> if aid \<noteq> [] then aid else refreshToken account)"

text \<open>\<^verbatim>\<open>accounts[i]\<close>: \<^verbatim>\<open>undefined\<close> out of range.\<close>

definition at_index :: "'a list \<Rightarrow> nat \<Rightarrow> 'a option" where
  "at_index xs i = (if i < length xs then Some (xs ! i) else None)"

text \<open>
  One round of the first loop of \<open>deduplicateAccounts\<close>, at index \<open>i\<close>. The
  \<^verbatim>\<open>Map\<close> \<open>keyToIndex\<close> is an association list in insertion order; \<open>AList.update\<close>
  overwrites the value of a key that is there and appends a new key, as \<^verbatim>\<open>Map.set\<close>
  does. The test \<^verbatim>\<open>newest === account\<close> compares references; \<open>selectNewestAccount\<close>
  returns one of its two arguments and returns the candidate whenever both carry the same
  timestamps, so the comparison of values decides the same.
\<close>

definition dedup_step ::
  "AccountMetadataV1 list \<Rightarrow> (string \<times> nat) list \<Rightarrow> nat \<Rightarrow> (string \<times> nat) list" where
  "dedup_step accs keyToIndex i =
     (case at_index accs i of
        None \<Rightarrow> keyToIndex
      | Some account \<Rightarrow>
          (let key = identity_key account
           in if key = [] then keyToIndex
              else (case map_of keyToIndex key of
                      None \<Rightarrow> AList.update key i keyToIndex
                    | Some existingIndex \<Rightarrow>
                        (let existing = at_index accs existingIndex;
                             newest = selectNewestAccount existing account
                         in AList.update key (if newest = account then i else existingIndex)
                              keyToIndex))))"

definition keyToIndex_of :: "AccountMetadataV1 list \<Rightarrow> (string \<times> nat) list" where
  "keyToIndex_of accs = foldl (dedup_step accs) [] [0..<length accs]"

definition deduplicateAccounts :: "AccountMetadataV1 list \<Rightarrow> AccountMetadataV1 list" where
  "deduplicateAccounts accs =
     (let keyToIndex = keyToIndex_of accs;
          indicesToKeep = set (map snd keyToIndex)
      in map (\<lambda>i. accs ! i) (filter (\<lambda>i. i \<in> indicesToKeep) [0..<length accs]))"

section \<open>Paths\<close>

text \<open>
  A path is the list of its components; \<^verbatim>\<open>join\<close> adds a component and \<^verbatim>\<open>dirname\<close>
  drops the last one. The argument \<open>home\<close> is what \<^verbatim>\<open>homedir()\<close> returns.
\<close>

type_synonym path = "string list"

definition join :: "path \<Rightarrow> string \<Rightarrow> path" where
  "join p s = p @ [s]"

definition dirname :: "path \<Rightarrow> path" where
  "dirname p = butlast p"

definition getConfigDir :: "path \<Rightarrow> path" where
  "getConfigDir home = join home ''.opencode''"

definition getStoragePath :: "path \<Rightarrow> path" where
  "getStoragePath home = join (getConfigDir home) ''openai-codex-accounts.json''"

section \<open>Errors and the log\<close>

text \<open>
  A thrown value, with what the handlers read of it: its \<^verbatim>\<open>code\<close> property and the
  string \<^verbatim>\<open>String(error)\<close>. A function that can throw returns \<open>js_error + 'a\<close>, with
  \<open>Inl\<close> for the exception (for an \<^verbatim>\<open>async\<close> function, the rejection of its promise).
\<close>

datatype js_error = JsError (code: "string option") (as_string: string)

text \<open>
  The logger is a collaborator that is not part of the store; a call of \<^verbatim>\<open>log.warn\<close> or
  \<^verbatim>\<open>log.error\<close> is recorded as an entry, with the message and the fields of its second
  argument, and returns.
\<close>

datatype log_entry =
    Warn string "(string \<times> jsvalue) list"
  | Error string "(string \<times> jsvalue) list"

section \<open>Loading\<close>

text \<open>
  What \<^verbatim>\<open>JSON.parse\<close> can return, as far as \<open>loadAccounts\<close> looks at it. An element of
  the \<open>accounts\<close> array is an object with the fields of an account (\<open>Rec\<close>) or any other
  value (\<open>Other\<close>), which has no property \<open>refreshToken\<close>. The field \<open>accounts\<close> is an
  array or some other value. The parsed text is \<^verbatim>\<open>null\<close>, an object with these three
  properties (an absent property is \<open>JUndefined\<close>), or some other value, all of whose
  properties read as \<^verbatim>\<open>undefined\<close>.
\<close>

datatype stored_entry = Other jsvalue | Rec "jsvalue metadata"

datatype accounts_field = NotArray jsvalue | Array "stored_entry list"

record stored_document =
  stored_version :: jsvalue
  stored_accounts :: accounts_field
  stored_activeIndex :: jsvalue

datatype parsed = ParsedNull | ParsedOther | ParsedObject stored_document

fun typeof :: "jsvalue \<Rightarrow> string" where
  "typeof JUndefined = ''undefined''"
| "typeof JNull = ''object''"
| "typeof (JBool b) = ''boolean''"
| "typeof (JNumber n) = ''number''"
| "typeof (JString s) = ''string''"
| "typeof JObject = ''object''"

fun entry_truthy :: "stored_entry \<Rightarrow> bool" where
  "entry_truthy (Other v) = truthy v"
| "entry_truthy (Rec r) = True"

fun entry_refreshToken :: "stored_entry \<Rightarrow> jsvalue" where
  "entry_refreshToken (Other v) = JUndefined"
| "entry_refreshToken (Rec r) = refreshToken r"

text \<open>The predicate of the filter: \<^verbatim>\<open>!!account && typeof account.refreshToken === "string"\<close>.\<close>

definition is_valid_account :: "stored_entry \<Rightarrow> bool" where
  "is_valid_account e = (entry_truthy e \<and> typeof (entry_refreshToken e) = ''string'')"

text \<open>The same object at the type the filter's type guard gives it.\<close>

fun as_account :: "stored_entry \<Rightarrow> AccountMetadataV1 option" where
  "as_account (Rec r) =
     (case refreshToken r of
        JString s \<Rightarrow>
          Some \<lparr>accountId = accountId r, refreshToken = s, addedAt = addedAt r,
                lastUsed = lastUsed r, lastSwitchReason = lastSwitchReason r,
                rateLimitResetTime = rateLimitResetTime r,
                coolingDownUntil = coolingDownUntil r, cooldownReason = cooldownReason r\<rparr>
      | _ \<Rightarrow> None)"
| "as_account (Other v) = None"

definition validAccounts_of :: "stored_entry list \<Rightarrow> AccountMetadataV1 list" where
  "validAccounts_of entries =
     List.map_filter (\<lambda>e. if is_valid_account e then as_account e else None) entries"

text \<open>
  \<^verbatim>\<open>typeof data.activeIndex === "number" && Number.isFinite(data.activeIndex) ?
  data.activeIndex : 0\<close>
\<close>

definition read_activeIndex :: "jsvalue \<Rightarrow> jsnumber" where
  "read_activeIndex v =
     (case v of
        JNumber n \<Rightarrow> if Number_isFinite n then n else Num 0
      | _ \<Rightarrow> Num 0)"

definition clamp_activeIndex :: "jsnumber \<Rightarrow> nat \<Rightarrow> jsnumber" where
  "clamp_activeIndex idx len =
     (if len > 0 then Math_max (Num 0) (Math_min idx (Num (of_nat len - 1))) else Num 0)"

text \<open>
  The body of the \<^verbatim>\<open>try\<close> block of \<open>loadAccounts\<close>. \<open>readFile\<close> is
  \<^verbatim>\<open>fs.readFile(path, "utf-8")\<close> and \<open>JSON_parse\<close> is \<^verbatim>\<open>JSON.parse\<close>; both can
  throw. Reading the property \<open>accounts\<close> of \<^verbatim>\<open>null\<close> throws a \<^verbatim>\<open>TypeError\<close>, which
  has no \<^verbatim>\<open>code\<close>. The result is the log written and the exception or the value returned,
  where \<open>None\<close> is \<^verbatim>\<open>null\<close>.
\<close>

definition null_TypeError :: js_error where
  "null_TypeError = JsError None ''TypeError: Cannot read properties of null''"

definition loadAccounts_try ::
  "path \<Rightarrow> (path \<Rightarrow> js_error + string) \<Rightarrow> (string \<Rightarrow> js_error + parsed)
     \<Rightarrow> log_entry list \<times> (js_error + AccountStorageV1 option)" where
  "loadAccounts_try home readFile JSON_parse =
     (case readFile (getStoragePath home) of
        Inl e \<Rightarrow> ([], Inl e)
      | Inr content \<Rightarrow>
          (case JSON_parse content of
             Inl e \<Rightarrow> ([], Inl e)
           | Inr ParsedNull \<Rightarrow> ([], Inl null_TypeError)
           | Inr ParsedOther \<Rightarrow> ([Warn ''Invalid storage format, ignoring'' []], Inr None)
           | Inr (ParsedObject d) \<Rightarrow>
               (case stored_accounts d of
                  NotArray v \<Rightarrow> ([Warn ''Invalid storage format, ignoring'' []], Inr None)
                | Array entries \<Rightarrow>
                    if stored_version d \<noteq> JNumber (Num 1)
                    then ([Warn ''Unknown storage version, ignoring''
                             [(''version'', stored_version d)]], Inr None)
                    else
                      (let validAccounts = validAccounts_of entries;
                           deduplicatedAccounts = deduplicateAccounts validAccounts;
                           idx = clamp_activeIndex (read_activeIndex (stored_activeIndex d))
                                   (length deduplicatedAccounts)
                       in ([], Inr (Some \<lparr>version = V1, accounts = deduplicatedAccounts,
                                           activeIndex = idx\<rparr>))))))"

text \<open>\<open>loadAccounts\<close>: the \<^verbatim>\<open>try\<close> block under its \<^verbatim>\<open>catch\<close> handler.\<close>

definition loadAccounts ::
  "path \<Rightarrow> (path \<Rightarrow> js_error + string) \<Rightarrow> (string \<Rightarrow> js_error + parsed)
     \<Rightarrow> log_entry list \<times> (js_error + AccountStorageV1 option)" where
  "loadAccounts home readFile JSON_parse =
     (case loadAccounts_try home readFile JSON_parse of
        (logged, Inr r) \<Rightarrow> (logged, Inr r)
      | (logged, Inl error) \<Rightarrow>
          if code error = Some ''ENOENT'' then (logged, Inr None)
          else (logged @ [Error ''Failed to load account storage''
                            [(''error'', JString (as_string error))]], Inr None))"

section \<open>Saving and clearing\<close>

text \<open>
  The calls that \<open>saveAccounts\<close> makes on the file system: \<^verbatim>\<open>fs.mkdir(path, {recursive})\<close>
  and \<^verbatim>\<open>fs.writeFile(path, content, encoding)\<close>. The content is the text
  \<^verbatim>\<open>JSON.stringify(storage, null, indent)\<close>, kept as a term. The environment \<open>io\<close> gives
  each call its outcome: \<open>None\<close> when it succeeds, the error it rejects with otherwise.
  \<open>saveAccounts\<close> returns the calls it made, in order, with its own outcome.
\<close>

datatype file_text = JSON_stringify AccountStorageV1 nat

datatype fs_call = Mkdir path bool | WriteFile path file_text string

definition saveAccounts ::
  "path \<Rightarrow> (fs_call \<Rightarrow> js_error option) \<Rightarrow> AccountStorageV1
     \<Rightarrow> fs_call list \<times> (js_error + unit)" where
  "saveAccounts home io storage =
     (let p = getStoragePath home;
          mk = Mkdir (dirname p) True
      in case io mk of
           Some e \<Rightarrow> ([mk], Inl e)
         | None \<Rightarrow>
             (let content = JSON_stringify storage 2;
                  wr = WriteFile p content ''utf-8''
              in case io wr of
                   Some e \<Rightarrow> ([mk, wr], Inl e)
                 | None \<Rightarrow> ([mk, wr], Inr ())))"

text \<open>
  \<open>clearAccounts\<close>: \<open>unlink\<close> is \<^verbatim>\<open>fs.unlink\<close>, which gives \<open>None\<close> when it succeeds and
  the error it rejects with otherwise.
\<close>

definition clearAccounts ::
  "path \<Rightarrow> (path \<Rightarrow> js_error option) \<Rightarrow> log_entry list \<times> (js_error + unit)" where
  "clearAccounts home unlink =
     (case unlink (getStoragePath home) of
        None \<Rightarrow> ([], Inr ())
      | Some error \<Rightarrow>
          if code error \<noteq> Some ''ENOENT''
          then ([Error ''Failed to clear account storage''
                   [(''error'', JString (as_string error))]], Inr ())
          else ([], Inr ()))"

text \<open>
  The file system under \<^verbatim>\<open>fs.unlink\<close>, as the set of the files that exist: the call
  fails with the fault the environment injects, if any; otherwise it removes the file, or
  rejects with \<^verbatim>\<open>ENOENT\<close> when there is no such file.
\<close>

definition ENOENT :: js_error where
  "ENOENT = JsError (Some ''ENOENT'') ''Error: ENOENT: no such file or directory''"

definition unlink_in :: "js_error option \<Rightarrow> path set \<Rightarrow> path \<Rightarrow> js_error option \<times> path set" where
  "unlink_in fault files p =
     (case fault of
        Some e \<Rightarrow> (Some e, files)
      | None \<Rightarrow> if p \<in> files then (None, files - {p}) else (Some ENOENT, files))"

text \<open>\<open>clearAccounts\<close> run on such a file system; the files that exist afterwards come last.\<close>

definition clearAccounts_in ::
  "path \<Rightarrow> js_error option \<Rightarrow> path set \<Rightarrow> (log_entry list \<times> (js_error + unit)) \<times> path set" where
  "clearAccounts_in home fault files =
     (clearAccounts home (\<lambda>p. fst (unlink_in fault files p)),
      snd (unlink_in fault files (getStoragePath home)))"

section \<open>The rotation manager\<close>

text \<open>
  Modelled from the spec: the class \<^verbatim>\<open>AccountManager\<close> of \<^verbatim>\<open>lib/accounts.ts\<close>, of which
  only a test is at hand. The state of a manager is its list of accounts and its active
  index (section 4.2 of the specification).
\<close>

record manager =
  mgr_accounts :: "AccountMetadataV1 list"
  mgr_activeIndex :: nat

text \<open>
  Modelled from the spec: subtraction of numbers, which \<^verbatim>\<open>getMinWaitTime\<close> of the absent
  \<^verbatim>\<open>AccountManager\<close> needs; exact on finite numbers.
\<close>

fun js_minus :: "jsnumber \<Rightarrow> jsnumber \<Rightarrow> jsnumber" where
  "js_minus (Num a) (Num b) = Num (a - b)"
| "js_minus NaN b = NaN"
| "js_minus a NaN = NaN"
| "js_minus PosInf PosInf = NaN"
| "js_minus NegInf NegInf = NaN"
| "js_minus PosInf b = PosInf"
| "js_minus NegInf b = NegInf"
| "js_minus (Num a) PosInf = NegInf"
| "js_minus (Num a) NegInf = PosInf"

text \<open>
  Modelled from the spec: the rate-limit window of the absent \<^verbatim>\<open>AccountManager\<close>. An
  account is rate-limited while \<open>now < rateLimitResetTime\<close>, that is, unless
  \<open>rateLimitResetTime\<close> is unset or \<open>now \<ge> rateLimitResetTime\<close>.
\<close>

definition is_rate_limited :: "jsnumber \<Rightarrow> AccountMetadataV1 \<Rightarrow> bool" where
  "is_rate_limited now a =
     (case rateLimitResetTime a of None \<Rightarrow> False | Some t \<Rightarrow> \<not> js_ge now t)"

text \<open>
  Modelled from the spec: the cooldown window of the absent \<^verbatim>\<open>AccountManager\<close>. An
  account is cooling down unless \<open>coolingDownUntil\<close> is unset or
  \<open>now \<ge> coolingDownUntil\<close>.
\<close>

definition is_cooling_down :: "jsnumber \<Rightarrow> AccountMetadataV1 \<Rightarrow> bool" where
  "is_cooling_down now a =
     (case coolingDownUntil a of None \<Rightarrow> False | Some t \<Rightarrow> \<not> js_ge now t)"

text \<open>
  Modelled from the spec: the availability predicate of the absent \<^verbatim>\<open>AccountManager\<close>.
  An account is available at \<open>now\<close> iff (\<open>rateLimitResetTime\<close> is unset or
  \<open>now \<ge> rateLimitResetTime\<close>) and (\<open>coolingDownUntil\<close> is unset or
  \<open>now \<ge> coolingDownUntil\<close>).
\<close>

definition is_available :: "jsnumber \<Rightarrow> AccountMetadataV1 \<Rightarrow> bool" where
  "is_available now a = (\<not> is_rate_limited now a \<and> \<not> is_cooling_down now a)"

text \<open>
  Modelled from the spec: \<^verbatim>\<open>getCurrentAccount\<close> of the absent \<^verbatim>\<open>AccountManager\<close>: the
  record at the active index, or none.
\<close>

definition getCurrentAccount :: "manager \<Rightarrow> AccountMetadataV1 option" where
  "getCurrentAccount m = at_index (mgr_accounts m) (mgr_activeIndex m)"

text \<open>
  Modelled from the spec: the order of the scan of \<^verbatim>\<open>getCurrentOrNext\<close> of the absent
  \<^verbatim>\<open>AccountManager\<close>: the indices just after the active one, wrapping around.
\<close>

definition scan_order :: "manager \<Rightarrow> nat list" where
  "scan_order m =
     map (\<lambda>k. (mgr_activeIndex m + k) mod length (mgr_accounts m))
       [1..<length (mgr_accounts m)]"

text \<open>
  Modelled from the spec: the result of the scan of \<^verbatim>\<open>getCurrentOrNext\<close> of the absent
  \<^verbatim>\<open>AccountManager\<close>: the first index of the scan order whose account is available.
\<close>

definition next_available :: "jsnumber \<Rightarrow> manager \<Rightarrow> nat option" where
  "next_available now m =
     find (\<lambda>i. is_available now (mgr_accounts m ! i)) (scan_order m)"

text \<open>
  Modelled from the spec: \<^verbatim>\<open>getCurrentOrNext\<close> of the absent \<^verbatim>\<open>AccountManager\<close>, at the
  time \<open>now\<close>. It returns the account chosen, the manager afterwards and whether the
  document was persisted. (1) An empty list gives none. (2) An available current account is
  returned unchanged. (3) Otherwise the first available account of the scan becomes the
  active one, with \<open>lastUsed = now\<close> and the reason \<open>rate-limit\<close> when the account left
  was rate-limited and \<open>rotation\<close> otherwise, and the document is persisted; when the
  scan finds none, the current account is returned unchanged.
\<close>

definition getCurrentOrNext ::
  "jsnumber \<Rightarrow> manager \<Rightarrow> AccountMetadataV1 option \<times> manager \<times> bool" where
  "getCurrentOrNext now m =
     (if mgr_accounts m = [] then (None, m, False)
      else
        (let current = getCurrentAccount m
         in if (case current of None \<Rightarrow> False | Some c \<Rightarrow> is_available now c)
            then (current, m, False)
            else
              (case next_available now m of
                 None \<Rightarrow> (current, m, False)
               | Some i \<Rightarrow>
                   (let reason =
                          (if (case current of None \<Rightarrow> False
                                 | Some c \<Rightarrow> is_rate_limited now c)
                           then RateLimit else Rotation);
                        chosen = (mgr_accounts m ! i)
                                   \<lparr>lastUsed := now, lastSwitchReason := Some reason\<rparr>
                    in (Some chosen,
                        \<lparr>mgr_accounts = (mgr_accounts m)[i := chosen], mgr_activeIndex = i\<rparr>,
                        True)))))"

text \<open>
  Modelled from the spec: the remaining wait of an account, for \<^verbatim>\<open>getMinWaitTime\<close> of
  the absent \<^verbatim>\<open>AccountManager\<close>: \<open>max(rateLimitResetTime or 0, coolingDownUntil or 0) -
  now\<close>, clamped at \<open>0\<close>.
\<close>

definition remaining_wait :: "jsnumber \<Rightarrow> AccountMetadataV1 \<Rightarrow> jsnumber" where
  "remaining_wait now a =
     Math_max (Num 0)
       (js_minus
          (Math_max (case rateLimitResetTime a of None \<Rightarrow> Num 0 | Some t \<Rightarrow> t)
                    (case coolingDownUntil a of None \<Rightarrow> Num 0 | Some t \<Rightarrow> t))
          now)"

text \<open>
  Modelled from the spec: \<^verbatim>\<open>getMinWaitTime\<close> of the absent \<^verbatim>\<open>AccountManager\<close>. If any
  account is available it returns \<open>0\<close>; otherwise the smallest remaining wait across
  all accounts; on an empty list, \<open>0\<close>.
\<close>

definition getMinWaitTime :: "jsnumber \<Rightarrow> manager \<Rightarrow> jsnumber" where
  "getMinWaitTime now m =
     (if list_ex (is_available now) (mgr_accounts m) then Num 0
      else (case map (remaining_wait now) (mgr_accounts m) of
              [] \<Rightarrow> Num 0
            | w # ws \<Rightarrow> fold Math_min ws w))"

section \<open>The order that deduplication decides by\<close>

text \<open>
  For the proofs: a number that is not \<open>NaN\<close> has a rank in a linear order that agrees
  with \<open>js_lt\<close>, and an account has the pair of the ranks of \<^verbatim>\<open>lastUsed || 0\<close> and
  \<^verbatim>\<open>addedAt || 0\<close>, ordered lexicographically. \<open>beats xs j i\<close> says that the record at
  index \<open>j\<close> is at least as new as the one at \<open>i\<close> and comes later when both are equally
  new. \<open>scan_inv\<close> is the invariant of the first loop after \<open>n\<close> rounds.
\<close>

fun rank :: "jsnumber \<Rightarrow> nat \<times> rat" where
  "rank NaN = (0, 0)"
| "rank NegInf = (1, 0)"
| "rank (Num r) = (2, r)"
| "rank PosInf = (3, 0)"

definition stamp :: "AccountMetadataV1 \<Rightarrow> (nat \<times> rat) \<times> (nat \<times> rat)" where
  "stamp a = (rank (or_zero (lastUsed a)), rank (or_zero (addedAt a)))"

definition beats :: "AccountMetadataV1 list \<Rightarrow> nat \<Rightarrow> nat \<Rightarrow> bool" where
  "beats xs j i \<longleftrightarrow>
     stamp (xs ! i) < stamp (xs ! j) \<or> (stamp (xs ! i) = stamp (xs ! j) \<and> i \<le> j)"

definition scan_inv :: "AccountMetadataV1 list \<Rightarrow> nat \<Rightarrow> (string \<rightharpoonup> nat) \<Rightarrow> bool" where
  "scan_inv xs n M \<longleftrightarrow>
     (\<forall>k j. M k = Some j \<longrightarrow> k \<noteq> [] \<and> j < n \<and> identity_key (xs ! j) = k) \<and>
     (\<forall>k j i. M k = Some j \<longrightarrow> i < n \<longrightarrow> identity_key (xs ! i) = k \<longrightarrow> beats xs j i) \<and>
     (\<forall>i<n. identity_key (xs ! i) \<noteq> [] \<longrightarrow> M (identity_key (xs ! i)) \<noteq> None)"

section \<open>Example values\<close>

text \<open>
  An account with the given account id, refresh token, \<open>addedAt\<close> and \<open>lastUsed\<close>, and
  none of the other optional fields; and the same as an object read from disk, whose
  \<open>refreshToken\<close> is any value.
\<close>

definition account_of :: "string option \<Rightarrow> string \<Rightarrow> rat \<Rightarrow> rat \<Rightarrow> AccountMetadataV1" where
  "account_of aid tok added used =
     \<lparr>accountId = aid, refreshToken = tok, addedAt = Num added, lastUsed = Num used,
      lastSwitchReason = None, rateLimitResetTime = None, coolingDownUntil = None,
      cooldownReason = None\<rparr>"

definition stored_of :: "string option \<Rightarrow> jsvalue \<Rightarrow> rat \<Rightarrow> rat \<Rightarrow> jsvalue metadata" where
  "stored_of aid tok added used =
     \<lparr>accountId = aid, refreshToken = tok, addedAt = Num added, lastUsed = Num used,
      lastSwitchReason = None, rateLimitResetTime = None, coolingDownUntil = None,
      cooldownReason = None\<rparr>"

text \<open>
  Environments for the examples: a file with a given content, a read that fails, a text
  that parses to a given value, a parse that fails, and a stored document with a given
  version, array of accounts and active index.
\<close>

definition file_with :: "string \<Rightarrow> path \<Rightarrow> js_error + string" where
  "file_with content p = Inr content"

definition read_fails :: "js_error \<Rightarrow> path \<Rightarrow> js_error + string" where
  "read_fails e p = Inl e"

definition parses_to :: "parsed \<Rightarrow> string \<Rightarrow> js_error + parsed" where
  "parses_to d content = Inr d"

definition parse_fails :: "js_error \<Rightarrow> string \<Rightarrow> js_error + parsed" where
  "parse_fails e content = Inl e"

definition document_of :: "jsvalue \<Rightarrow> stored_entry list \<Rightarrow> jsvalue \<Rightarrow> parsed" where
  "document_of v entries idx =
     ParsedObject \<lparr>stored_version = v, stored_accounts = Array entries, stored_activeIndex = idx\<rparr>"

text \<open>
  A file system on which every call succeeds, one on which every write fails, an
  \<^verbatim>\<open>fs.unlink\<close> with a given outcome, and some errors.
\<close>

definition all_succeed :: "fs_call \<Rightarrow> js_error option" where
  "all_succeed call = None"

definition write_fails :: "js_error \<Rightarrow> fs_call \<Rightarrow> js_error option" where
  "write_fails e call = (case call of WriteFile p c enc \<Rightarrow> Some e | Mkdir p r \<Rightarrow> None)"

definition unlink_gives :: "js_error option \<Rightarrow> path \<Rightarrow> js_error option" where
  "unlink_gives outcome p = outcome"

definition EACCES :: js_error where
  "EACCES = JsError (Some ''EACCES'') ''Error: EACCES: permission denied''"

definition SyntaxError :: js_error where
  "SyntaxError = JsError None ''SyntaxError: Unexpected end of JSON input''"

section \<open>Deduplication keeps a subsequence\<close>

lemma map_nth_filter_upt_nths:
  "map (\<lambda>i. xs ! i) (filter (\<lambda>i. i \<in> I) [0..<length xs]) = nths xs I"
proof (induction xs rule: rev_induct)
  case Nil
  show ?case by simp
next
  case (snoc x xs)
  have "map (\<lambda>i. (xs @ [x]) ! i) (filter (\<lambda>i. i \<in> I) [0..<length xs])
        = map (\<lambda>i. xs ! i) (filter (\<lambda>i. i \<in> I) [0..<length xs])"
    by (rule map_cong) (auto simp: nth_append)
  with snoc show ?case
    by (simp add: nths_append nths_Cons)
qed

lemma deduplicateAccounts_nths:
  "deduplicateAccounts accs = nths accs (set (map snd (keyToIndex_of accs)))"
  unfolding deduplicateAccounts_def Let_def by (rule map_nth_filter_upt_nths)

text \<open>
  C2. The output of \<open>deduplicateAccounts\<close> is a subsequence of its input: its records
  are records of the input, unchanged, in the order in which the input has them.
\<close>

theorem deduplicateAccounts_subseq:
  "subseq (deduplicateAccounts accs) accs"
  unfolding subseq_conv_nths deduplicateAccounts_nths by blast

section \<open>The invariant of the first loop\<close>

lemma or_zero_not_NaN: "or_zero n \<noteq> NaN"
  by (simp add: or_zero_def)

lemma js_lt_rank: "a \<noteq> NaN \<Longrightarrow> b \<noteq> NaN \<Longrightarrow> js_lt a b \<longleftrightarrow> rank a < rank b"
  by (cases a; cases b) auto

lemma rank_eq_iff: "a \<noteq> NaN \<Longrightarrow> b \<noteq> NaN \<Longrightarrow> rank a = rank b \<longleftrightarrow> a = b"
  by (cases a; cases b) auto

lemma lex_le_iff:
  "((a::'a::linorder), (b::'b::linorder)) \<le> (c, d) \<longleftrightarrow> a < c \<or> (a = c \<and> b \<le> d)"
  by auto

lemma selectNewestAccount_candidate_iff:
  "selectNewestAccount (Some e) c = c \<longleftrightarrow> stamp e \<le> stamp c"
proof -
  let ?el = "or_zero (lastUsed e)" and ?cl = "or_zero (lastUsed c)"
  let ?ea = "or_zero (addedAt e)" and ?ca = "or_zero (addedAt c)"
  have l: "js_lt ?el ?cl \<longleftrightarrow> rank ?el < rank ?cl" "js_lt ?cl ?el \<longleftrightarrow> rank ?cl < rank ?el"
    by (simp_all add: js_lt_rank or_zero_not_NaN)
  have a: "js_ge ?ca ?ea \<longleftrightarrow> rank ?ea \<le> rank ?ca"
    by (simp add: js_ge_def js_lt_rank or_zero_not_NaN not_less)
  have sel: "selectNewestAccount (Some e) c =
      (if rank ?el < rank ?cl then c else if rank ?cl < rank ?el then e
       else if rank ?ea \<le> rank ?ca then c else e)"
    by (simp add: selectNewestAccount_def Let_def js_gt_def l a)
  have st: "stamp e \<le> stamp c \<longleftrightarrow>
      rank ?el < rank ?cl \<or> (rank ?el = rank ?cl \<and> rank ?ea \<le> rank ?ca)"
    unfolding stamp_def by (rule lex_le_iff)
  show ?thesis
  proof (cases "stamp e \<le> stamp c")
    case True
    with st have "selectNewestAccount (Some e) c = c"
      unfolding sel by (simp only: split: if_splits) (metis less_irrefl)
    with True show ?thesis by simp
  next
    case False
    then have "e \<noteq> c" by auto
    moreover from False st have "selectNewestAccount (Some e) c = e"
      unfolding sel by (simp only: split: if_splits) (metis not_less_iff_gr_or_eq)
    ultimately show ?thesis using False by simp
  qed
qed

lemma map_of_dedup_step:
  assumes "n < length xs"
  shows "map_of (dedup_step xs m n) =
     (let k = identity_key (xs ! n) in
      if k = [] then map_of m
      else (case map_of m k of
              None \<Rightarrow> (map_of m)(k \<mapsto> n)
            | Some e \<Rightarrow> (map_of m)(k \<mapsto> (if selectNewestAccount (at_index xs e) (xs ! n) = xs ! n then n else e))))"
  using assms
  by (simp add: dedup_step_def at_index_def Let_def update_conv' split: option.splits)

lemma distinct_dedup_step:
  "distinct (map fst m) \<Longrightarrow> distinct (map fst (dedup_step xs m n))"
  by (simp add: dedup_step_def Let_def distinct_update split: option.splits)

lemma beats_refl: "beats xs n n"
  by (simp add: beats_def)

lemma beats_less: "stamp (xs ! n) < stamp (xs ! e) \<Longrightarrow> beats xs e n"
  by (simp add: beats_def)

lemma beats_trans_new:
  assumes "beats xs e i" and "stamp (xs ! e) \<le> stamp (xs ! n)" and "i \<le> n"
  shows "beats xs n i"
proof -
  from assms(1) have "stamp (xs ! i) \<le> stamp (xs ! e)"
    unfolding beats_def by (rule disjE) simp_all
  from this assms(2) have "stamp (xs ! i) \<le> stamp (xs ! n)" by (rule order_trans)
  with assms(3) show ?thesis unfolding beats_def by (simp add: le_less)
qed

lemma scan_inv_keep:
  assumes inv: "scan_inv xs n M"
    and new: "identity_key (xs ! n) = [] \<or>
              (\<exists>e. M (identity_key (xs ! n)) = Some e \<and> stamp (xs ! n) < stamp (xs ! e))"
  shows "scan_inv xs (Suc n) M"
  unfolding scan_inv_def
proof (intro conjI)
  show "\<forall>k j. M k = Some j \<longrightarrow> k \<noteq> [] \<and> j < Suc n \<and> identity_key (xs ! j) = k"
  proof (intro allI impI)
    fix k j assume "M k = Some j"
    with inv have "k \<noteq> []" "j < n" "identity_key (xs ! j) = k"
      unfolding scan_inv_def by blast+
    then show "k \<noteq> [] \<and> j < Suc n \<and> identity_key (xs ! j) = k" by simp
  qed
next
  show "\<forall>k j i. M k = Some j \<longrightarrow> i < Suc n \<longrightarrow> identity_key (xs ! i) = k \<longrightarrow> beats xs j i"
  proof (intro allI impI)
  fix k j i assume M: "M k = Some j" and i: "i < Suc n" and k: "identity_key (xs ! i) = k"
  from inv M have kne: "k \<noteq> []" unfolding scan_inv_def by blast
  show "beats xs j i"
  proof (cases "i = n")
    case True
    with new k kne M have "stamp (xs ! n) < stamp (xs ! j)" by auto
    with True show ?thesis by (simp add: beats_less)
  next
    case False
    with i have "i < n" by simp
    with inv M k show ?thesis unfolding scan_inv_def by blast
  qed
  qed
next
  show "\<forall>i<Suc n. identity_key (xs ! i) \<noteq> [] \<longrightarrow> M (identity_key (xs ! i)) \<noteq> None"
  proof (intro allI impI)
  fix i assume i: "i < Suc n" and k: "identity_key (xs ! i) \<noteq> []"
  show "M (identity_key (xs ! i)) \<noteq> None"
  proof (cases "i = n")
    case True
    with new k show ?thesis by auto
  next
    case False
    with i have "i < n" by simp
    with inv k show ?thesis unfolding scan_inv_def by blast
  qed
  qed
qed

lemma scan_inv_replace:
  assumes inv: "scan_inv xs n M"
    and kne: "identity_key (xs ! n) \<noteq> []"
    and new: "M (identity_key (xs ! n)) = None \<or>
              (\<exists>e. M (identity_key (xs ! n)) = Some e \<and> stamp (xs ! e) \<le> stamp (xs ! n))"
  shows "scan_inv xs (Suc n) (M(identity_key (xs ! n) \<mapsto> n))"
  unfolding scan_inv_def
proof (intro conjI)
  let ?M' = "M(identity_key (xs ! n) \<mapsto> n)"
  show "\<forall>k j. ?M' k = Some j \<longrightarrow> k \<noteq> [] \<and> j < Suc n \<and> identity_key (xs ! j) = k"
  proof (intro allI impI)
  fix k j assume M: "(M(identity_key (xs ! n) \<mapsto> n)) k = Some j"
  show "k \<noteq> [] \<and> j < Suc n \<and> identity_key (xs ! j) = k"
  proof (cases "k = identity_key (xs ! n)")
    case True
    with M kne show ?thesis by simp
  next
    case False
    with M have "M k = Some j" by simp
    with inv have "k \<noteq> []" "j < n" "identity_key (xs ! j) = k"
      unfolding scan_inv_def by blast+
    then show ?thesis by simp
  qed
  qed
next
  let ?M' = "M(identity_key (xs ! n) \<mapsto> n)"
  show "\<forall>k j i. ?M' k = Some j \<longrightarrow> i < Suc n \<longrightarrow> identity_key (xs ! i) = k \<longrightarrow> beats xs j i"
  proof (intro allI impI)
  fix k j i
  assume M: "(M(identity_key (xs ! n) \<mapsto> n)) k = Some j"
    and i: "i < Suc n" and k: "identity_key (xs ! i) = k"
  show "beats xs j i"
  proof (cases "k = identity_key (xs ! n)")
    case True
    with M have j: "j = n" by simp
    show ?thesis
    proof (cases "i = n")
      case True
      with j show ?thesis by (simp add: beats_refl)
    next
      case False
      with i have iln: "i < n" by simp
      with inv k kne True have "M (identity_key (xs ! n)) \<noteq> None"
        unfolding scan_inv_def by metis
      with new obtain e where e: "M (identity_key (xs ! n)) = Some e"
        "stamp (xs ! e) \<le> stamp (xs ! n)" by auto
      from inv e(1) iln k True have "beats xs e i" unfolding scan_inv_def by blast
      from this e(2) show ?thesis unfolding j
      proof (rule beats_trans_new)
        from iln show "i \<le> n" by simp
      qed
    qed
  next
    case False
    with M have Mk: "M k = Some j" by simp
    from False k have "i \<noteq> n" by auto
    with i have "i < n" by simp
    with inv Mk k show ?thesis unfolding scan_inv_def by blast
  qed
  qed
next
  let ?M' = "M(identity_key (xs ! n) \<mapsto> n)"
  show "\<forall>i<Suc n. identity_key (xs ! i) \<noteq> [] \<longrightarrow> ?M' (identity_key (xs ! i)) \<noteq> None"
  proof (intro allI impI)
  fix i assume i: "i < Suc n" and k: "identity_key (xs ! i) \<noteq> []"
  show "(M(identity_key (xs ! n) \<mapsto> n)) (identity_key (xs ! i)) \<noteq> None"
  proof (cases "identity_key (xs ! i) = identity_key (xs ! n)")
    case True
    then show ?thesis by simp
  next
    case False
    then have "i \<noteq> n" by auto
    with i have "i < n" by simp
    with inv k have "M (identity_key (xs ! i)) \<noteq> None" unfolding scan_inv_def by blast
    with False show ?thesis by simp
  qed
  qed
qed

lemma scan_inv_step:
  assumes n: "n < length xs" and inv: "scan_inv xs n (map_of m)"
  shows "scan_inv xs (Suc n) (map_of (dedup_step xs m n))"
proof -
  let ?k = "identity_key (xs ! n)"
  let ?M = "map_of m"
  show ?thesis
  proof (cases "?k = []")
    case True
    then have "map_of (dedup_step xs m n) = ?M"
      unfolding map_of_dedup_step[OF n] Let_def by simp
    with inv True show ?thesis by (simp add: scan_inv_keep)
  next
    case k: False
    show ?thesis
    proof (cases "?M ?k")
      case None
      with k have "map_of (dedup_step xs m n) = ?M(?k \<mapsto> n)"
        unfolding map_of_dedup_step[OF n] Let_def by simp
      with inv k None show ?thesis by (simp add: scan_inv_replace)
    next
      case (Some e)
      with inv have "e < n" unfolding scan_inv_def by blast
      with n have at: "at_index xs e = Some (xs ! e)" by (simp add: at_index_def)
      show ?thesis
      proof (cases "stamp (xs ! e) \<le> stamp (xs ! n)")
        case True
        then have "map_of (dedup_step xs m n) = ?M(?k \<mapsto> n)"
          unfolding map_of_dedup_step[OF n] Let_def using k Some at
          by (simp add: selectNewestAccount_candidate_iff)
        with inv k Some True show ?thesis by (simp add: scan_inv_replace)
      next
        case False
        then have "map_of (dedup_step xs m n) = ?M(?k \<mapsto> e)"
          unfolding map_of_dedup_step[OF n] Let_def using k Some at
          by (simp add: selectNewestAccount_candidate_iff)
        also from Some have "\<dots> = ?M" by (rule map_upd_triv)
        finally have M': "map_of (dedup_step xs m n) = ?M" .
        from False have "stamp (xs ! n) < stamp (xs ! e)" by simp
        with inv Some show ?thesis unfolding M' by (intro scan_inv_keep) auto
      qed
    qed
  qed
qed

lemma scan_inv_foldl:
  "n \<le> length xs \<Longrightarrow>
     scan_inv xs n (map_of (foldl (dedup_step xs) [] [0..<n])) \<and>
     distinct (map fst (foldl (dedup_step xs) [] [0..<n]))"
proof (induction n)
  case 0
  show ?case by (simp add: scan_inv_def)
next
  case (Suc n)
  then show ?case by (simp add: scan_inv_step distinct_dedup_step)
qed


lemma scan_inv_final:
  "scan_inv xs (length xs) (map_of (keyToIndex_of xs))"
  "distinct (map fst (keyToIndex_of xs))"
  unfolding keyToIndex_of_def using scan_inv_foldl[of "length xs" xs] by simp_all

lemma kept_iff:
  "i \<in> set (map snd (keyToIndex_of xs)) \<longleftrightarrow> (\<exists>k. map_of (keyToIndex_of xs) k = Some i)"
proof -
  have "set (map snd (keyToIndex_of xs)) = ran (map_of (keyToIndex_of xs))"
    using scan_inv_final(2)[of xs] by (simp add: ran_distinct)
  then show ?thesis by (simp add: ran_def)
qed

lemma keptD:
  assumes "i \<in> set (map snd (keyToIndex_of xs))"
  shows "i < length xs" and "identity_key (xs ! i) \<noteq> []"
    and "map_of (keyToIndex_of xs) (identity_key (xs ! i)) = Some i"
proof -
  from assms obtain k where k: "map_of (keyToIndex_of xs) k = Some i"
    unfolding kept_iff by blast
  with scan_inv_final(1)[of xs] have *: "k \<noteq> []" "i < length xs" "identity_key (xs ! i) = k"
    unfolding scan_inv_def by blast+
  from * show "i < length xs" by simp
  from * show "identity_key (xs ! i) \<noteq> []" by simp
  from * k show "map_of (keyToIndex_of xs) (identity_key (xs ! i)) = Some i" by simp
qed

lemma champion_ex:
  assumes i: "i < length xs" and k: "identity_key (xs ! i) \<noteq> []"
  shows "\<exists>j. map_of (keyToIndex_of xs) (identity_key (xs ! i)) = Some j \<and>
     j < length xs \<and> identity_key (xs ! j) = identity_key (xs ! i) \<and>
     (\<forall>i'<length xs. identity_key (xs ! i') = identity_key (xs ! i) \<longrightarrow> beats xs j i')"
proof -
  let ?M = "map_of (keyToIndex_of xs)"
  note inv = scan_inv_final(1)[of xs]
  from inv i k have "?M (identity_key (xs ! i)) \<noteq> None"
    unfolding scan_inv_def by blast
  then obtain j where j: "?M (identity_key (xs ! i)) = Some j" by auto
  with inv have a: "j < length xs" "identity_key (xs ! j) = identity_key (xs ! i)"
    unfolding scan_inv_def by blast+
  from inv j have b: "\<forall>i'<length xs. identity_key (xs ! i') = identity_key (xs ! i) \<longrightarrow> beats xs j i'"
    unfolding scan_inv_def by blast
  from j a b show ?thesis by blast
qed

lemma filter_upt_single:
  assumes "j < n" and "\<And>i. i < n \<Longrightarrow> P i \<longleftrightarrow> i = j"
  shows "filter P [0..<n] = [j]"
proof (rule sorted_distinct_set_unique)
  show "sorted (filter P [0..<n])" by (simp add: sorted_wrt_filter)
  show "distinct (filter P [0..<n])" by simp
  show "sorted [j]" by simp
  show "distinct [j]" by simp
  from assms show "set (filter P [0..<n]) = set [j]" by auto
qed

lemma survivors_of_key:
  assumes i: "i < length xs" and k: "identity_key (xs ! i) \<noteq> []"
    and j: "map_of (keyToIndex_of xs) (identity_key (xs ! i)) = Some j"
  shows "filter (\<lambda>a. identity_key a = identity_key (xs ! i)) (deduplicateAccounts xs) = [xs ! j]"
proof -
  let ?I = "set (map snd (keyToIndex_of xs))"
  let ?k = "identity_key (xs ! i)"
  from j have jI: "j \<in> ?I" unfolding kept_iff by blast
  have jl: "j < length xs" using keptD(1)[OF jI] .
  have jk: "identity_key (xs ! j) = ?k"
    using scan_inv_final(1)[of xs] j unfolding scan_inv_def by blast
  have "filter (\<lambda>a. identity_key a = ?k) (deduplicateAccounts xs)
      = map (\<lambda>i. xs ! i) (filter (\<lambda>i'. i' \<in> ?I \<and> identity_key (xs ! i') = ?k) [0..<length xs])"
    unfolding deduplicateAccounts_def Let_def
    by (simp add: filter_map o_def conj_commute)
  also have "filter (\<lambda>i'. i' \<in> ?I \<and> identity_key (xs ! i') = ?k) [0..<length xs] = [j]"
  proof (rule filter_upt_single[OF jl])
    fix i' assume "i' < length xs"
    show "(i' \<in> ?I \<and> identity_key (xs ! i') = ?k) \<longleftrightarrow> i' = j"
    proof
      assume a: "i' \<in> ?I \<and> identity_key (xs ! i') = ?k"
      then have "map_of (keyToIndex_of xs) ?k = Some i'" using keptD(3)[of i' xs] by simp
      with j show "i' = j" by simp
    next
      assume "i' = j"
      with jI jk show "i' \<in> ?I \<and> identity_key (xs ! i') = ?k" by simp
    qed
  qed
  finally show ?thesis by simp
qed


lemma lex_less_iff:
  "((a::'a::linorder), (b::'b::linorder)) < (c, d) \<longleftrightarrow> a < c \<or> (a = c \<and> b < d)"
  by auto

lemma rank_or_zero_less:
  "rank (or_zero x) < rank (or_zero y) \<longleftrightarrow> js_gt (or_zero y) (or_zero x)"
  unfolding js_gt_def by (rule js_lt_rank[symmetric]) (rule or_zero_not_NaN)+

lemma rank_or_zero_eq:
  "rank (or_zero x) = rank (or_zero y) \<longleftrightarrow> or_zero y = or_zero x"
proof -
  have "rank (or_zero x) = rank (or_zero y) \<longleftrightarrow> or_zero x = or_zero y"
    by (rule rank_eq_iff) (rule or_zero_not_NaN)+
  then show ?thesis by (simp only: eq_commute[of "or_zero x"])
qed

lemma stamp_less_iff:
  "stamp a < stamp b \<longleftrightarrow>
     js_gt (or_zero (lastUsed b)) (or_zero (lastUsed a)) \<or>
     (or_zero (lastUsed b) = or_zero (lastUsed a) \<and>
      js_gt (or_zero (addedAt b)) (or_zero (addedAt a)))"
proof -
  have "stamp a < stamp b \<longleftrightarrow>
      rank (or_zero (lastUsed a)) < rank (or_zero (lastUsed b)) \<or>
      (rank (or_zero (lastUsed a)) = rank (or_zero (lastUsed b)) \<and>
       rank (or_zero (addedAt a)) < rank (or_zero (addedAt b)))"
    unfolding stamp_def by (rule lex_less_iff)
  then show ?thesis
    by (simp only: rank_or_zero_less rank_or_zero_eq)
qed

lemma stamp_eq_iff:
  "stamp a = stamp b \<longleftrightarrow>
     or_zero (lastUsed b) = or_zero (lastUsed a) \<and> or_zero (addedAt b) = or_zero (addedAt a)"
proof -
  have "stamp a = stamp b \<longleftrightarrow>
      rank (or_zero (lastUsed a)) = rank (or_zero (lastUsed b)) \<and>
      rank (or_zero (addedAt a)) = rank (or_zero (addedAt b))"
    unfolding stamp_def by (rule prod.inject)
  then show ?thesis
    by (simp only: rank_or_zero_eq)
qed

section \<open>Deduplication keeps the newest record of every key\<close>

text \<open>
  C1. Let \<open>k\<close> be a usable identity key (not the empty string; a record whose key is
  empty is dropped) that some record of the input has. Then the output of
  \<open>deduplicateAccounts\<close> has exactly one record with the key \<open>k\<close>, the input record at
  some index \<open>j\<close>, and every other input record with the key \<open>k\<close>, at an index \<open>i\<close>,
  loses against it: the record at \<open>j\<close> has the strictly greater \<open>lastUsed\<close>, or the same
  \<open>lastUsed\<close> and the strictly greater \<open>addedAt\<close>, or the same of both and the later
  position in the input. The timestamps are compared the way \<open>selectNewestAccount\<close>
  reads them, as \<^verbatim>\<open>lastUsed || 0\<close> and \<^verbatim>\<open>addedAt || 0\<close>, which is the timestamp itself
  unless it is \<open>NaN\<close>.
\<close>

theorem deduplicateAccounts_newest:
  assumes "k \<noteq> []" and "k \<in> identity_key ` set accs"
  shows "\<exists>j<length accs.
           identity_key (accs ! j) = k \<and>
           filter (\<lambda>a. identity_key a = k) (deduplicateAccounts accs) = [accs ! j] \<and>
           (\<forall>i<length accs. i \<noteq> j \<longrightarrow> identity_key (accs ! i) = k \<longrightarrow>
              js_gt (or_zero (lastUsed (accs ! j))) (or_zero (lastUsed (accs ! i))) \<or>
              (or_zero (lastUsed (accs ! j)) = or_zero (lastUsed (accs ! i)) \<and>
               js_gt (or_zero (addedAt (accs ! j))) (or_zero (addedAt (accs ! i)))) \<or>
              (or_zero (lastUsed (accs ! j)) = or_zero (lastUsed (accs ! i)) \<and>
               or_zero (addedAt (accs ! j)) = or_zero (addedAt (accs ! i)) \<and> i < j))"
proof -
  from assms(2) obtain i0 where i0: "i0 < length accs" "identity_key (accs ! i0) = k"
    by (auto simp: in_set_conv_nth)
  with assms(1) have kne: "identity_key (accs ! i0) \<noteq> []" by simp
  from champion_ex[OF i0(1) kne] obtain j where
    j: "map_of (keyToIndex_of accs) (identity_key (accs ! i0)) = Some j"
      "j < length accs" "identity_key (accs ! j) = identity_key (accs ! i0)"
    and best: "\<forall>i'<length accs. identity_key (accs ! i') = identity_key (accs ! i0)
                 \<longrightarrow> beats accs j i'"
    by blast
  have one: "filter (\<lambda>a. identity_key a = k) (deduplicateAccounts accs) = [accs ! j]"
    using survivors_of_key[OF i0(1) kne j(1)] i0(2) by simp
  have cmp: "js_gt (or_zero (lastUsed (accs ! j))) (or_zero (lastUsed (accs ! i))) \<or>
              (or_zero (lastUsed (accs ! j)) = or_zero (lastUsed (accs ! i)) \<and>
               js_gt (or_zero (addedAt (accs ! j))) (or_zero (addedAt (accs ! i)))) \<or>
              (or_zero (lastUsed (accs ! j)) = or_zero (lastUsed (accs ! i)) \<and>
               or_zero (addedAt (accs ! j)) = or_zero (addedAt (accs ! i)) \<and> i < j)"
    if "i < length accs" "i \<noteq> j" "identity_key (accs ! i) = k" for i
  proof -
    from that i0(2) best have "beats accs j i" by simp
    with that(2) have "stamp (accs ! i) < stamp (accs ! j) \<or>
        (stamp (accs ! i) = stamp (accs ! j) \<and> i < j)"
      unfolding beats_def by (simp add: le_less)
    then show ?thesis
      unfolding stamp_less_iff stamp_eq_iff by (elim disjE conjE) simp_all
  qed
  show ?thesis
  proof (intro exI[of _ j] conjI allI impI)
    show "j < length accs" by (rule j(2))
    show "identity_key (accs ! j) = k" using j(3) i0(2) by simp
    show "filter (\<lambda>a. identity_key a = k) (deduplicateAccounts accs) = [accs ! j]" by (rule one)
  next
    fix i assume "i < length accs" "i \<noteq> j" "identity_key (accs ! i) = k"
    then show "js_gt (or_zero (lastUsed (accs ! j))) (or_zero (lastUsed (accs ! i))) \<or>
              (or_zero (lastUsed (accs ! j)) = or_zero (lastUsed (accs ! i)) \<and>
               js_gt (or_zero (addedAt (accs ! j))) (or_zero (addedAt (accs ! i)))) \<or>
              (or_zero (lastUsed (accs ! j)) = or_zero (lastUsed (accs ! i)) \<and>
               or_zero (addedAt (accs ! j)) = or_zero (addedAt (accs ! i)) \<and> i < j)"
      by (rule cmp)
  qed
qed


theorem deduplicateAccounts_newest_witness:
  "''acct'' \<noteq> [] \<and>
   ''acct'' \<in> identity_key ` set [account_of (Some ''acct'') ''t1'' 1 5,
                                   account_of None ''t2'' 1 9,
                                   account_of (Some ''acct'') ''t3'' 1 5] \<and>
   (\<exists>j<3. filter (\<lambda>a. identity_key a = ''acct'')
              (deduplicateAccounts [account_of (Some ''acct'') ''t1'' 1 5,
                                    account_of None ''t2'' 1 9,
                                    account_of (Some ''acct'') ''t3'' 1 5])
            = [[account_of (Some ''acct'') ''t1'' 1 5,
                account_of None ''t2'' 1 9,
                account_of (Some ''acct'') ''t3'' 1 5] ! j])"
proof -
  let ?accs = "[account_of (Some ''acct'') ''t1'' 1 5, account_of None ''t2'' 1 9,
                account_of (Some ''acct'') ''t3'' 1 5]"
  have k: "''acct'' \<noteq> []" by simp
  have occurs: "''acct'' \<in> identity_key ` set ?accs"
    by (simp add: identity_key_def account_of_def)
  from deduplicateAccounts_newest[OF k occurs] have
    "\<exists>j<length ?accs. filter (\<lambda>a. identity_key a = ''acct'') (deduplicateAccounts ?accs) = [?accs ! j]"
    by blast
  then have "\<exists>j<3. filter (\<lambda>a. identity_key a = ''acct'') (deduplicateAccounts ?accs) = [?accs ! j]"
    by (simp add: numeral_3_eq_3)
  with k occurs show ?thesis by blast
qed

section \<open>Deduplication is idempotent\<close>

lemma dedup_keys_distinct: "distinct (map identity_key (deduplicateAccounts xs))"
proof -
  let ?I = "set (map snd (keyToIndex_of xs))"
  have "map identity_key (deduplicateAccounts xs)
      = map (\<lambda>i. identity_key (xs ! i)) (filter (\<lambda>i. i \<in> ?I) [0..<length xs])"
    unfolding deduplicateAccounts_def Let_def by (simp add: o_def)
  moreover have "inj_on (\<lambda>i. identity_key (xs ! i)) (set (filter (\<lambda>i. i \<in> ?I) [0..<length xs]))"
  proof (rule inj_onI)
    fix a b
    assume a: "a \<in> set (filter (\<lambda>i. i \<in> ?I) [0..<length xs])"
      and b: "b \<in> set (filter (\<lambda>i. i \<in> ?I) [0..<length xs])"
      and eq: "identity_key (xs ! a) = identity_key (xs ! b)"
    from a have "a \<in> ?I" by simp
    then have A: "map_of (keyToIndex_of xs) (identity_key (xs ! a)) = Some a" by (rule keptD(3))
    from b have "b \<in> ?I" by simp
    then have B: "map_of (keyToIndex_of xs) (identity_key (xs ! b)) = Some b" by (rule keptD(3))
    have "Some a = map_of (keyToIndex_of xs) (identity_key (xs ! a))" by (rule A[symmetric])
    also have "\<dots> = map_of (keyToIndex_of xs) (identity_key (xs ! b))" by (simp only: eq)
    also have "\<dots> = Some b" by (rule B)
    finally show "a = b" by simp
  qed
  ultimately show ?thesis by (simp only: distinct_map distinct_filter distinct_upt simp_thms)
qed

lemma dedup_keys_nonempty:
  assumes "a \<in> set (deduplicateAccounts xs)"
  shows "identity_key a \<noteq> []"
proof -
  let ?I = "set (map snd (keyToIndex_of xs))"
  from assms obtain i where "i \<in> ?I" "a = xs ! i"
    unfolding deduplicateAccounts_def Let_def set_map set_filter by blast
  then show ?thesis using keptD(2)[of i xs] by simp
qed

lemma dedup_fixed_point:
  assumes d: "distinct (map identity_key ys)" and ne: "\<And>a. a \<in> set ys \<Longrightarrow> identity_key a \<noteq> []"
  shows "deduplicateAccounts ys = ys"
proof -
  let ?I = "set (map snd (keyToIndex_of ys))"
  have all: "i \<in> ?I" if i: "i < length ys" for i
  proof -
    from i ne have k: "identity_key (ys ! i) \<noteq> []" by simp
    from champion_ex[OF i k] obtain j where j: "map_of (keyToIndex_of ys) (identity_key (ys ! i)) = Some j"
      "j < length ys" "identity_key (ys ! j) = identity_key (ys ! i)"
      by blast
    from j(2,3) i have eq: "map identity_key ys ! j = map identity_key ys ! i" by simp
    from d have "(map identity_key ys ! j = map identity_key ys ! i) = (j = i)"
      by (rule nth_eq_iff_index_eq) (simp_all add: i j(2))
    with eq have "j = i" by simp
    with j(1) show ?thesis unfolding kept_iff by blast
  qed
  have "filter (\<lambda>i. i \<in> ?I) [0..<length ys] = [0..<length ys]"
  proof (rule filter_True)
    show "\<forall>i\<in>set [0..<length ys]. i \<in> ?I"
    proof
      fix i assume "i \<in> set [0..<length ys]"
      then have "i < length ys" by simp
      then show "i \<in> ?I" by (rule all)
    qed
  qed
  then show ?thesis
    unfolding deduplicateAccounts_def Let_def by (simp add: map_nth)
qed

text \<open>
  C10. \<open>deduplicateAccounts\<close> is idempotent: applied to its own output it returns that
  output.
\<close>

theorem deduplicateAccounts_idempotent:
  "deduplicateAccounts (deduplicateAccounts accs) = deduplicateAccounts accs"
  by (rule dedup_fixed_point) (simp_all add: dedup_keys_distinct dedup_keys_nonempty)

section \<open>What loading returns\<close>

lemma set_deduplicateAccounts: "set (deduplicateAccounts xs) \<subseteq> set xs"
  unfolding deduplicateAccounts_nths by (rule set_nths_subset)

lemma validAccounts_ofD:
  assumes "a \<in> set (validAccounts_of entries)"
  shows "\<exists>r. Rec r \<in> set entries \<and> refreshToken r = JString (refreshToken a) \<and>
             as_account (Rec r) = Some a"
proof -
  from assms obtain e where e: "e \<in> set entries"
    and v: "(if is_valid_account e then as_account e else None) = Some a"
    unfolding validAccounts_of_def by (auto simp: map_filter_def split: if_splits)
  from v have a: "as_account e = Some a" by (simp split: if_splits)
  then obtain r where r: "e = Rec r" by (cases e) simp_all
  from a r obtain s where s: "refreshToken r = JString s" by (cases "refreshToken r") simp_all
  from a r s have "refreshToken a = s" by auto
  with e a r s show ?thesis by auto
qed

lemma loadAccounts_SomeD:
  assumes "loadAccounts home readFile JSON_parse = (logged, Inr (Some st))"
  shows "\<exists>content d entries.
           readFile (getStoragePath home) = Inr content \<and>
           JSON_parse content = Inr (ParsedObject d) \<and>
           stored_accounts d = Array entries \<and>
           stored_version d = JNumber (Num 1) \<and>
           logged = [] \<and>
           st = \<lparr>version = V1,
                  accounts = deduplicateAccounts (validAccounts_of entries),
                  activeIndex = clamp_activeIndex (read_activeIndex (stored_activeIndex d))
                    (length (deduplicateAccounts (validAccounts_of entries)))\<rparr>"
  using assms
  by (auto simp: loadAccounts_def loadAccounts_try_def Let_def
      split: sum.splits parsed.splits accounts_field.splits if_splits)

lemma dedup_eval_1:
  "deduplicateAccounts [account_of (Some ''acct'') [] 1 1] = [account_of (Some ''acct'') [] 1 1]"
  by (simp add: deduplicateAccounts_def keyToIndex_of_def dedup_step_def at_index_def
      identity_key_def account_of_def Let_def)

lemma dedup_eval_2:
  "deduplicateAccounts [account_of None ''t1'' 1 1, account_of None ''t2'' 1 1]
   = [account_of None ''t1'' 1 1, account_of None ''t2'' 1 1]"
  by code_simp

text \<open>
  C3, as stated, fails. A stored record with a non-empty \<open>accountId\<close> and the empty
  string as \<open>refreshToken\<close> passes the filter of \<open>loadAccounts\<close>, which tests
  \<^verbatim>\<open>typeof account.refreshToken === "string"\<close>, and has a usable identity key, so
  \<open>deduplicateAccounts\<close> keeps it: the returned document holds a record whose
  \<open>refreshToken\<close> is empty.
\<close>

theorem loadAccounts_empty_refreshToken:
  "loadAccounts [''home''] (file_with ''stored text'')
     (parses_to (document_of (JNumber (Num 1))
        [Rec (stored_of (Some ''acct'') (JString []) 1 1)] (JNumber (Num 0))))
   = ([], Inr (Some \<lparr>version = V1, accounts = [account_of (Some ''acct'') [] 1 1],
                      activeIndex = Num 0\<rparr>)) \<and>
   refreshToken (account_of (Some ''acct'') [] 1 1) = []"
proof -
  have v: "validAccounts_of [Rec (stored_of (Some ''acct'') (JString []) 1 1)]
      = [account_of (Some ''acct'') [] 1 1]"
    by (simp add: validAccounts_of_def List.map_filter_simps is_valid_account_def
        stored_of_def account_of_def)
  show ?thesis
    by (simp add: loadAccounts_def loadAccounts_try_def file_with_def parses_to_def
        document_of_def v dedup_eval_1 read_activeIndex_def clamp_activeIndex_def
        Math_max_def Math_min_def Let_def)
      (simp add: account_of_def)
qed

text \<open>
  C3, amended. When \<open>loadAccounts\<close> returns a document it has logged nothing, and every
  account record of the document has a non-empty identity key, so that its
  \<open>refreshToken\<close> is non-empty whenever its \<open>accountId\<close> is absent or empty, and is a
  record of the stored array whose \<open>refreshToken\<close> is that string: an entry whose
  \<open>refreshToken\<close> is not a string is discarded without a log entry.
\<close>

theorem loadAccounts_refreshToken_string:
  assumes "loadAccounts home readFile JSON_parse = (logged, Inr (Some st))"
  shows "logged = [] \<and>
         (\<forall>a \<in> set (accounts st).
            identity_key a \<noteq> [] \<and>
            (accountId a = None \<or> accountId a = Some [] \<longrightarrow> refreshToken a \<noteq> []) \<and>
            (\<exists>content d entries r.
               readFile (getStoragePath home) = Inr content \<and>
               JSON_parse content = Inr (ParsedObject d) \<and>
               stored_accounts d = Array entries \<and>
               Rec r \<in> set entries \<and> refreshToken r = JString (refreshToken a)))"
proof -
  from loadAccounts_SomeD[OF assms] obtain content d entries where
    c: "readFile (getStoragePath home) = Inr content"
      "JSON_parse content = Inr (ParsedObject d)" "stored_accounts d = Array entries"
    and l: "logged = []"
    and st: "accounts st = deduplicateAccounts (validAccounts_of entries)"
    by auto
  have "identity_key a \<noteq> [] \<and>
        (accountId a = None \<or> accountId a = Some [] \<longrightarrow> refreshToken a \<noteq> []) \<and>
        (\<exists>content d entries r.
               readFile (getStoragePath home) = Inr content \<and>
               JSON_parse content = Inr (ParsedObject d) \<and>
               stored_accounts d = Array entries \<and>
               Rec r \<in> set entries \<and> refreshToken r = JString (refreshToken a))"
    if a: "a \<in> set (accounts st)" for a
  proof -
    from a st have k: "identity_key a \<noteq> []" by (simp add: dedup_keys_nonempty)
    then have e: "accountId a = None \<or> accountId a = Some [] \<longrightarrow> refreshToken a \<noteq> []"
      by (auto simp: identity_key_def)
    from a st set_deduplicateAccounts have "a \<in> set (validAccounts_of entries)" by auto
    from validAccounts_ofD[OF this] c k e show ?thesis by blast
  qed
  with l show ?thesis by blast
qed

theorem loadAccounts_refreshToken_string_witness:
  "loadAccounts [''home''] (file_with ''stored text'')
     (parses_to (document_of (JNumber (Num 1))
        [Rec (stored_of None (JString ''tok'') 1 1), Rec (stored_of (Some ''a'') JNull 1 1),
         Other JNull] JUndefined))
   = ([], Inr (Some \<lparr>version = V1, accounts = [account_of None ''tok'' 1 1],
                      activeIndex = Num 0\<rparr>)) \<and>
   refreshToken (account_of None ''tok'' 1 1) \<noteq> []"
proof -
  have v: "validAccounts_of [Rec (stored_of None (JString ''tok'') 1 1),
      Rec (stored_of (Some ''a'') JNull 1 1), Other JNull]
      = [account_of None ''tok'' 1 1]"
    by (simp add: validAccounts_of_def List.map_filter_simps is_valid_account_def
        stored_of_def account_of_def)
  have d: "deduplicateAccounts [account_of None ''tok'' 1 1] = [account_of None ''tok'' 1 1]"
    by (simp add: deduplicateAccounts_def keyToIndex_of_def dedup_step_def at_index_def
      identity_key_def account_of_def Let_def)
  have run: "loadAccounts [''home''] (file_with ''stored text'')
     (parses_to (document_of (JNumber (Num 1))
        [Rec (stored_of None (JString ''tok'') 1 1), Rec (stored_of (Some ''a'') JNull 1 1),
         Other JNull] JUndefined))
   = ([], Inr (Some \<lparr>version = V1, accounts = [account_of None ''tok'' 1 1],
                      activeIndex = Num 0\<rparr>))"
    by (simp add: loadAccounts_def loadAccounts_try_def file_with_def parses_to_def
        document_of_def v d read_activeIndex_def clamp_activeIndex_def
        Math_max_def Math_min_def Let_def)
  from loadAccounts_refreshToken_string[OF run]
  have "\<forall>a \<in> set [account_of None ''tok'' 1 1].
          (accountId a = None \<or> accountId a = Some [] \<longrightarrow> refreshToken a \<noteq> [])"
    by simp
  then have "refreshToken (account_of None ''tok'' 1 1) \<noteq> []"
    by (simp add: account_of_def)
  with run show ?thesis by blast
qed

lemma js_ge_Num: "js_ge (Num a) (Num b) \<longleftrightarrow> b \<le> a"
  by (auto simp: js_ge_def)

lemma clamp_activeIndex_range:
  assumes "0 < len" and "Number_isFinite idx"
  shows "js_ge (clamp_activeIndex idx len) (Num 0) \<and>
         js_ge (Num (of_nat len - 1)) (clamp_activeIndex idx len)"
proof -
  from assms(2) obtain r where r: "idx = Num r" by (cases idx) simp_all
  from assms(1) have "(0::rat) \<le> of_nat len - 1" by (cases len) simp_all
  with assms(1) r show ?thesis
    by (auto simp: clamp_activeIndex_def Math_max_def Math_min_def js_ge_Num)
qed

lemma read_activeIndex_finite: "Number_isFinite (read_activeIndex v)"
  by (cases v) (auto simp: read_activeIndex_def)

lemma read_activeIndex_unreadable:
  "(\<forall>r. v \<noteq> JNumber (Num r)) \<Longrightarrow> read_activeIndex v = Num 0"
  by (cases v) (auto simp: read_activeIndex_def elim: Number_isFinite.elims)

lemma clamp_activeIndex_zero: "clamp_activeIndex (Num 0) len = Num 0"
proof (cases len)
  case 0
  then show ?thesis by (simp add: clamp_activeIndex_def)
next
  case (Suc n)
  then show ?thesis by (simp add: clamp_activeIndex_def Math_max_def Math_min_def)
qed

text \<open>
  C4. When \<open>loadAccounts\<close> returns a document for a stored document \<open>d\<close>, its
  \<open>activeIndex\<close> is at least \<open>0\<close> and at most the number of accounts minus one if
  there is an account, and is \<open>0\<close> if there is none; and it is \<open>0\<close> when the stored
  \<open>activeIndex\<close> is not a finite number (missing, of another type, \<open>NaN\<close> or infinite),
  which is then read as \<open>0\<close> before the clamping.
\<close>

theorem loadAccounts_activeIndex_clamped:
  assumes "readFile (getStoragePath home) = Inr content"
    and "JSON_parse content = Inr (ParsedObject d)"
    and "loadAccounts home readFile JSON_parse = (logged, Inr (Some st))"
  shows "(accounts st \<noteq> [] \<longrightarrow>
            js_ge (activeIndex st) (Num 0) \<and>
            js_ge (Num (of_nat (length (accounts st)) - 1)) (activeIndex st)) \<and>
         (accounts st = [] \<longrightarrow> activeIndex st = Num 0) \<and>
         ((\<forall>r. stored_activeIndex d \<noteq> JNumber (Num r)) \<longrightarrow> activeIndex st = Num 0)"
proof -
  from loadAccounts_SomeD[OF assms(3)] assms(1,2)
  have idx: "activeIndex st =
      clamp_activeIndex (read_activeIndex (stored_activeIndex d)) (length (accounts st))"
    by auto
  have 1: "accounts st \<noteq> [] \<longrightarrow>
            js_ge (activeIndex st) (Num 0) \<and>
            js_ge (Num (of_nat (length (accounts st)) - 1)) (activeIndex st)"
    unfolding idx using clamp_activeIndex_range[OF _ read_activeIndex_finite] by simp
  have 2: "accounts st = [] \<longrightarrow> activeIndex st = Num 0"
    unfolding idx by (simp add: clamp_activeIndex_def)
  have 3: "(\<forall>r. stored_activeIndex d \<noteq> JNumber (Num r)) \<longrightarrow> activeIndex st = Num 0"
    unfolding idx by (simp add: read_activeIndex_unreadable clamp_activeIndex_zero)
  from 1 2 3 show ?thesis by blast
qed

theorem loadAccounts_activeIndex_clamped_witness:
  "loadAccounts [''home''] (file_with ''stored text'')
     (parses_to (document_of (JNumber (Num 1))
        [Rec (stored_of None (JString ''t1'') 1 1), Rec (stored_of None (JString ''t2'') 1 1)]
        (JNumber (Num 7))))
   = ([], Inr (Some \<lparr>version = V1,
                      accounts = [account_of None ''t1'' 1 1, account_of None ''t2'' 1 1],
                      activeIndex = Num 1\<rparr>)) \<and>
   js_ge (Num 1) (Num 0) \<and> js_ge (Num (of_nat 2 - 1)) (Num 1)"
proof -
  let ?doc = "document_of (JNumber (Num 1))
        [Rec (stored_of None (JString ''t1'') 1 1), Rec (stored_of None (JString ''t2'') 1 1)]
        (JNumber (Num 7))"
  have v: "validAccounts_of [Rec (stored_of None (JString ''t1'') 1 1),
      Rec (stored_of None (JString ''t2'') 1 1)]
      = [account_of None ''t1'' 1 1, account_of None ''t2'' 1 1]"
    by (simp add: validAccounts_of_def List.map_filter_simps is_valid_account_def
        stored_of_def account_of_def)
  have rd: "file_with ''stored text'' (getStoragePath [''home'']) = Inr ''stored text''"
    by (simp add: file_with_def)
  have ps: "parses_to ?doc ''stored text'' = Inr (ParsedObject
      \<lparr>stored_version = JNumber (Num 1),
       stored_accounts = Array [Rec (stored_of None (JString ''t1'') 1 1),
                                Rec (stored_of None (JString ''t2'') 1 1)],
       stored_activeIndex = JNumber (Num 7)\<rparr>)"
    by (simp add: parses_to_def document_of_def)
  have run: "loadAccounts [''home''] (file_with ''stored text'') (parses_to ?doc)
   = ([], Inr (Some \<lparr>version = V1,
                      accounts = [account_of None ''t1'' 1 1, account_of None ''t2'' 1 1],
                      activeIndex = Num 1\<rparr>))"
    by (simp add: loadAccounts_def loadAccounts_try_def file_with_def parses_to_def
        document_of_def v dedup_eval_2 read_activeIndex_def clamp_activeIndex_def
        Math_max_def Math_min_def Let_def)
  from loadAccounts_activeIndex_clamped[OF rd ps run]
  have "js_ge (Num 1) (Num 0) \<and> js_ge (Num (of_nat 2 - 1)) (Num 1)"
    by simp
  with run show ?thesis by blast
qed

text \<open>
  C6. \<open>loadAccounts\<close> never throws: whatever reading and parsing do, it returns a
  value. When the read fails with the code \<^verbatim>\<open>ENOENT\<close> it returns \<^verbatim>\<open>null\<close> and logs
  nothing; when the read or the parse fails with any other error it logs that error and
  returns \<^verbatim>\<open>null\<close>.
\<close>

theorem loadAccounts_never_throws:
  "(\<exists>logged r. loadAccounts home readFile JSON_parse = (logged, Inr r)) \<and>
   (\<forall>e. readFile (getStoragePath home) = Inl e \<longrightarrow> code e = Some ''ENOENT'' \<longrightarrow>
        loadAccounts home readFile JSON_parse = ([], Inr None)) \<and>
   (\<forall>e. (readFile (getStoragePath home) = Inl e \<or>
         (\<exists>content. readFile (getStoragePath home) = Inr content \<and>
                     JSON_parse content = Inl e)) \<longrightarrow>
        code e \<noteq> Some ''ENOENT'' \<longrightarrow>
        loadAccounts home readFile JSON_parse =
          ([Error ''Failed to load account storage'' [(''error'', JString (as_string e))]],
           Inr None))"
proof (intro conjI allI impI)
  show "\<exists>logged r. loadAccounts home readFile JSON_parse = (logged, Inr r)"
    by (cases "loadAccounts_try home readFile JSON_parse")
       (auto simp: loadAccounts_def split: sum.splits)
next
  fix e assume "readFile (getStoragePath home) = Inl e" "code e = Some ''ENOENT''"
  then show "loadAccounts home readFile JSON_parse = ([], Inr None)"
    by (simp add: loadAccounts_def loadAccounts_try_def)
next
  fix e
  assume "readFile (getStoragePath home) = Inl e \<or>
         (\<exists>content. readFile (getStoragePath home) = Inr content \<and> JSON_parse content = Inl e)"
    and "code e \<noteq> Some ''ENOENT''"
  then show "loadAccounts home readFile JSON_parse =
          ([Error ''Failed to load account storage'' [(''error'', JString (as_string e))]],
           Inr None)"
    by (auto simp: loadAccounts_def loadAccounts_try_def)
qed

theorem loadAccounts_never_throws_witness:
  "loadAccounts [''home''] (read_fails ENOENT) (parse_fails SyntaxError) = ([], Inr None) \<and>
   loadAccounts [''home''] (read_fails EACCES) (parse_fails SyntaxError) =
     ([Error ''Failed to load account storage''
         [(''error'', JString ''Error: EACCES: permission denied'')]], Inr None) \<and>
   loadAccounts [''home''] (file_with ''{'') (parse_fails SyntaxError) =
     ([Error ''Failed to load account storage''
         [(''error'', JString ''SyntaxError: Unexpected end of JSON input'')]], Inr None)"
proof -
  have 1: "loadAccounts [''home''] (read_fails ENOENT) (parse_fails SyntaxError) = ([], Inr None)"
    using loadAccounts_never_throws[of "[''home'']" "read_fails ENOENT" "parse_fails SyntaxError"]
    by (simp add: read_fails_def ENOENT_def)
  have 2: "loadAccounts [''home''] (read_fails EACCES) (parse_fails SyntaxError) =
     ([Error ''Failed to load account storage''
         [(''error'', JString ''Error: EACCES: permission denied'')]], Inr None)"
    using loadAccounts_never_throws[of "[''home'']" "read_fails EACCES" "parse_fails SyntaxError"]
    by (simp add: read_fails_def EACCES_def)
  have 3: "loadAccounts [''home''] (file_with ''{'') (parse_fails SyntaxError) =
     ([Error ''Failed to load account storage''
         [(''error'', JString ''SyntaxError: Unexpected end of JSON input'')]], Inr None)"
    using loadAccounts_never_throws[of "[''home'']" "file_with ''{''" "parse_fails SyntaxError"]
    by (simp add: file_with_def parse_fails_def SyntaxError_def)
  from 1 2 3 show ?thesis by blast
qed

text \<open>
  C7. For a parsed document whose \<open>accounts\<close> is an array and whose \<open>version\<close> is not
  the number \<open>1\<close>, \<open>loadAccounts\<close> returns \<^verbatim>\<open>null\<close> without throwing, after one
  warning that carries the version found.
\<close>

theorem loadAccounts_unknown_version:
  assumes "readFile (getStoragePath home) = Inr content"
    and "JSON_parse content = Inr (ParsedObject d)"
    and "stored_accounts d = Array entries"
    and "stored_version d \<noteq> JNumber (Num 1)"
  shows "loadAccounts home readFile JSON_parse =
           ([Warn ''Unknown storage version, ignoring'' [(''version'', stored_version d)]],
            Inr None)"
  using assms by (simp add: loadAccounts_def loadAccounts_try_def)

theorem loadAccounts_unknown_version_witness:
  "loadAccounts [''home''] (file_with ''stored text'')
     (parses_to (document_of (JNumber (Num 2))
        [Rec (stored_of None (JString ''t1'') 1 1)] (JNumber (Num 0))))
   = ([Warn ''Unknown storage version, ignoring'' [(''version'', JNumber (Num 2))]], Inr None)"
proof -
  let ?d = "\<lparr>stored_version = JNumber (Num 2),
             stored_accounts = Array [Rec (stored_of None (JString ''t1'') 1 1)],
             stored_activeIndex = JNumber (Num 0)\<rparr>"
  have rd: "file_with ''stored text'' (getStoragePath [''home'']) = Inr ''stored text''"
    by (simp add: file_with_def)
  have ps: "parses_to (document_of (JNumber (Num 2))
        [Rec (stored_of None (JString ''t1'') 1 1)] (JNumber (Num 0))) ''stored text''
      = Inr (ParsedObject ?d)"
    by (simp add: parses_to_def document_of_def)
  have ac: "stored_accounts ?d = Array [Rec (stored_of None (JString ''t1'') 1 1)]" by simp
  have ve: "stored_version ?d \<noteq> JNumber (Num 1)" by simp
  from loadAccounts_unknown_version[where home = "[''home'']" and readFile = "file_with ''stored text''"
      and JSON_parse = "parses_to (document_of (JNumber (Num 2))
        [Rec (stored_of None (JString ''t1'') 1 1)] (JNumber (Num 0)))", OF rd ps ac ve]
  show ?thesis by simp
qed

section \<open>What saving and clearing do\<close>

lemma dirname_getStoragePath: "dirname (getStoragePath home) = getConfigDir home"
  by (simp add: dirname_def getStoragePath_def join_def)

text \<open>
  C8. \<open>saveAccounts\<close> first calls \<^verbatim>\<open>mkdir\<close>, recursively, on the directory of the
  storage path; a failure of that call is its own failure. When the directory call
  succeeds, the only other call is the write of \<^verbatim>\<open>JSON.stringify(storage, null, 2)\<close> to
  the storage path itself, and \<open>saveAccounts\<close> fails with the error of the write if the
  write fails and returns otherwise.
\<close>

theorem saveAccounts_mkdir_then_write:
  "hd (fst (saveAccounts home io storage)) = Mkdir (dirname (getStoragePath home)) True \<and>
   (\<forall>e. io (Mkdir (dirname (getStoragePath home)) True) = Some e \<longrightarrow>
        saveAccounts home io storage = ([Mkdir (dirname (getStoragePath home)) True], Inl e)) \<and>
   (io (Mkdir (dirname (getStoragePath home)) True) = None \<longrightarrow>
      fst (saveAccounts home io storage) =
        [Mkdir (dirname (getStoragePath home)) True,
         WriteFile (getStoragePath home) (JSON_stringify storage 2) ''utf-8''] \<and>
      (\<forall>e. io (WriteFile (getStoragePath home) (JSON_stringify storage 2) ''utf-8'') = Some e
           \<longrightarrow> snd (saveAccounts home io storage) = Inl e) \<and>
      (io (WriteFile (getStoragePath home) (JSON_stringify storage 2) ''utf-8'') = None
           \<longrightarrow> snd (saveAccounts home io storage) = Inr ()))"
  by (auto simp: saveAccounts_def Let_def split: option.splits)

theorem saveAccounts_mkdir_then_write_witness:
  "saveAccounts [''home''] (write_fails EACCES)
     \<lparr>version = V1, accounts = [account_of None ''t1'' 1 1], activeIndex = Num 0\<rparr>
   = ([Mkdir [''home'', ''.opencode''] True,
       WriteFile [''home'', ''.opencode'', ''openai-codex-accounts.json'']
         (JSON_stringify \<lparr>version = V1, accounts = [account_of None ''t1'' 1 1],
                           activeIndex = Num 0\<rparr> 2) ''utf-8''],
      Inl EACCES) \<and>
   saveAccounts [''home''] all_succeed
     \<lparr>version = V1, accounts = [account_of None ''t1'' 1 1], activeIndex = Num 0\<rparr>
   = ([Mkdir [''home'', ''.opencode''] True,
       WriteFile [''home'', ''.opencode'', ''openai-codex-accounts.json'']
         (JSON_stringify \<lparr>version = V1, accounts = [account_of None ''t1'' 1 1],
                           activeIndex = Num 0\<rparr> 2) ''utf-8''],
      Inr ())"
proof -
  let ?st = "\<lparr>version = V1, accounts = [account_of None ''t1'' 1 1], activeIndex = Num 0\<rparr>"
  have 1: "saveAccounts [''home''] (write_fails EACCES) ?st
   = ([Mkdir [''home'', ''.opencode''] True,
       WriteFile [''home'', ''.opencode'', ''openai-codex-accounts.json'']
         (JSON_stringify ?st 2) ''utf-8''], Inl EACCES)"
    using saveAccounts_mkdir_then_write[of "[''home'']" "write_fails EACCES" ?st]
    by (simp add: write_fails_def prod_eq_iff getStoragePath_def getConfigDir_def join_def
        dirname_def)
  have 2: "saveAccounts [''home''] all_succeed ?st
   = ([Mkdir [''home'', ''.opencode''] True,
       WriteFile [''home'', ''.opencode'', ''openai-codex-accounts.json'']
         (JSON_stringify ?st 2) ''utf-8''], Inr ())"
    using saveAccounts_mkdir_then_write[of "[''home'']" all_succeed ?st]
    by (simp add: all_succeed_def prod_eq_iff getStoragePath_def getConfigDir_def join_def
        dirname_def)
  from 1 2 show ?thesis by blast
qed

text \<open>
  C9. \<open>clearAccounts\<close> never throws. When \<^verbatim>\<open>unlink\<close> fails with the code
  \<^verbatim>\<open>ENOENT\<close> it returns and logs nothing; when \<^verbatim>\<open>unlink\<close> fails with another error
  it logs that error and returns. Two calls in a row never throw, under any faults, and
  when no fault is injected the second call logs nothing and leaves the files as the
  first call left them.
\<close>

theorem clearAccounts_never_throws:
  "snd (clearAccounts home unlink) = Inr () \<and>
   (\<forall>e. unlink (getStoragePath home) = Some e \<longrightarrow> code e = Some ''ENOENT'' \<longrightarrow>
        clearAccounts home unlink = ([], Inr ())) \<and>
   (\<forall>e. unlink (getStoragePath home) = Some e \<longrightarrow> code e \<noteq> Some ''ENOENT'' \<longrightarrow>
        clearAccounts home unlink =
          ([Error ''Failed to clear account storage'' [(''error'', JString (as_string e))]],
           Inr ())) \<and>
   snd (fst (clearAccounts_in home fault1 files)) = Inr () \<and>
   snd (fst (clearAccounts_in home fault2 (snd (clearAccounts_in home fault1 files)))) = Inr () \<and>
   (fault1 = None \<longrightarrow> fault2 = None \<longrightarrow>
      clearAccounts_in home fault2 (snd (clearAccounts_in home fault1 files)) =
        (([], Inr ()), snd (clearAccounts_in home fault1 files)))"
proof -
  have a: "snd (clearAccounts home u) = Inr ()" for u
    by (simp add: clearAccounts_def split: option.splits)
  have b: "\<forall>e. unlink (getStoragePath home) = Some e \<longrightarrow> code e = Some ''ENOENT'' \<longrightarrow>
        clearAccounts home unlink = ([], Inr ())"
    by (simp add: clearAccounts_def)
  have c: "\<forall>e. unlink (getStoragePath home) = Some e \<longrightarrow> code e \<noteq> Some ''ENOENT'' \<longrightarrow>
        clearAccounts home unlink =
          ([Error ''Failed to clear account storage'' [(''error'', JString (as_string e))]],
           Inr ())"
    by (simp add: clearAccounts_def)
  have d: "snd (fst (clearAccounts_in home f fs)) = Inr ()" for f fs
    by (simp add: clearAccounts_in_def a)
  have e: "fault1 = None \<longrightarrow> fault2 = None \<longrightarrow>
      clearAccounts_in home fault2 (snd (clearAccounts_in home fault1 files)) =
        (([], Inr ()), snd (clearAccounts_in home fault1 files))"
    by (simp add: clearAccounts_in_def clearAccounts_def unlink_in_def ENOENT_def)
  from a b c d e show ?thesis by blast
qed

theorem clearAccounts_never_throws_witness:
  "clearAccounts [''home''] (unlink_gives (Some ENOENT)) = ([], Inr ()) \<and>
   clearAccounts [''home''] (unlink_gives (Some EACCES)) =
     ([Error ''Failed to clear account storage''
         [(''error'', JString ''Error: EACCES: permission denied'')]], Inr ()) \<and>
   clearAccounts_in [''home''] None
     (snd (clearAccounts_in [''home''] None {getStoragePath [''home'']}))
   = (([], Inr ()), {})"
proof -
  have 1: "clearAccounts [''home''] (unlink_gives (Some ENOENT)) = ([], Inr ())"
    using clearAccounts_never_throws[of "[''home'']" "unlink_gives (Some ENOENT)"]
    by (simp add: unlink_gives_def ENOENT_def)
  have 2: "clearAccounts [''home''] (unlink_gives (Some EACCES)) =
     ([Error ''Failed to clear account storage''
         [(''error'', JString ''Error: EACCES: permission denied'')]], Inr ())"
    using clearAccounts_never_throws[of "[''home'']" "unlink_gives (Some EACCES)"]
    by (simp add: unlink_gives_def EACCES_def)
  have s: "snd (clearAccounts_in [''home''] None {getStoragePath [''home'']}) = {}"
    by (simp add: clearAccounts_in_def unlink_in_def)
  have 3: "clearAccounts_in [''home''] None
     (snd (clearAccounts_in [''home''] None {getStoragePath [''home'']}))
   = (([], Inr ()), {})"
    using clearAccounts_never_throws[of "[''home'']" _ None "{getStoragePath [''home'']}" None]
    by (simp add: s)
  from 1 2 3 show ?thesis by blast
qed

section \<open>The rotation scenario\<close>

text \<open>
  C5. A manager holds two accounts and account 0 is active. Account 0 has a
  \<open>rateLimitResetTime\<close> that is strictly after \<open>now\<close>; account 1 has neither a
  \<open>rateLimitResetTime\<close> nor a \<open>coolingDownUntil\<close>. Then \<open>getCurrentOrNext\<close> returns
  account 1, which becomes the active one with \<open>lastUsed = now\<close>, and
  \<open>getMinWaitTime\<close> returns \<open>0\<close>.
\<close>

theorem rotation_scenario:
  assumes "mgr_accounts m = [a0, a1]" and "mgr_activeIndex m = 0"
    and "rateLimitResetTime a0 = Some t" and "js_lt now t"
    and "rateLimitResetTime a1 = None" and "coolingDownUntil a1 = None"
  shows "fst (getCurrentOrNext now m) =
           Some (a1\<lparr>lastUsed := now, lastSwitchReason := Some RateLimit\<rparr>) \<and>
         mgr_activeIndex (fst (snd (getCurrentOrNext now m))) = 1 \<and>
         getMinWaitTime now m = Num 0"
proof -
  from assms(3,4) have rl: "is_rate_limited now a0"
    by (simp add: is_rate_limited_def js_ge_def)
  then have na: "\<not> is_available now a0" by (simp add: is_available_def)
  from assms(5,6) have av: "is_available now a1"
    by (simp add: is_available_def is_rate_limited_def is_cooling_down_def)
  from assms(1,2) have cur: "getCurrentAccount m = Some a0"
    by (simp add: getCurrentAccount_def at_index_def)
  from assms(1,2) have so: "scan_order m = [1]"
    by (simp add: scan_order_def)
  from so av assms(1) have nx: "next_available now m = Some 1"
    by (simp add: next_available_def)
  from assms(1) cur na nx rl have
    "getCurrentOrNext now m =
       (Some (a1\<lparr>lastUsed := now, lastSwitchReason := Some RateLimit\<rparr>),
        \<lparr>mgr_accounts = [a0, a1\<lparr>lastUsed := now, lastSwitchReason := Some RateLimit\<rparr>],
         mgr_activeIndex = 1\<rparr>, True)"
    by (simp add: getCurrentOrNext_def Let_def)
  moreover from assms(1) av have "getMinWaitTime now m = Num 0"
    by (simp add: getMinWaitTime_def)
  ultimately show ?thesis by simp
qed

theorem rotation_scenario_witness:
  "js_lt (Num 1000) (Num 61000) \<and>
   fst (getCurrentOrNext (Num 1000)
          \<lparr>mgr_accounts = [(account_of None ''token-1'' 1000 1000)
                              \<lparr>rateLimitResetTime := Some (Num 61000)\<rparr>,
                            account_of None ''token-2'' 1000 1000],
           mgr_activeIndex = 0\<rparr>)
     = Some ((account_of None ''token-2'' 1000 1000)
               \<lparr>lastUsed := Num 1000, lastSwitchReason := Some RateLimit\<rparr>) \<and>
   getMinWaitTime (Num 1000)
     \<lparr>mgr_accounts = [(account_of None ''token-1'' 1000 1000)
                         \<lparr>rateLimitResetTime := Some (Num 61000)\<rparr>,
                       account_of None ''token-2'' 1000 1000],
      mgr_activeIndex = 0\<rparr> = Num 0"
proof -
  let ?a0 = "(account_of None ''token-1'' 1000 1000)\<lparr>rateLimitResetTime := Some (Num 61000)\<rparr>"
  let ?a1 = "account_of None ''token-2'' 1000 1000"
  let ?m = "\<lparr>mgr_accounts = [?a0, ?a1], mgr_activeIndex = 0\<rparr>"
  have 1: "mgr_accounts ?m = [?a0, ?a1]" by simp
  have 2: "mgr_activeIndex ?m = 0" by simp
  have 3: "rateLimitResetTime ?a0 = Some (Num 61000)" by simp
  have 4: "js_lt (Num 1000) (Num 61000)" by simp
  have 5: "rateLimitResetTime ?a1 = None" by (simp add: account_of_def)
  have 6: "coolingDownUntil ?a1 = None" by (simp add: account_of_def)
  from rotation_scenario[OF 1 2 3 4 5 6] 4 show ?thesis by simp
qed

end
